theory Spec2Isabelle
  imports Main
begin

section \<open>Text\<close>

text \<open>
  A Python \<^verbatim>\<open>str\<close> is a sequence of Unicode code points. The scanner decodes every file
  as text before it looks at it, and its regular expressions, \<^verbatim>\<open>str.strip\<close> and slicing all
  count code points, so text is modelled as a list of code points (natural numbers).
  \<open>u\<close> turns an ASCII literal of this theory into such a text.
\<close>

type_synonym ustr = "nat list"

definition u :: "string \<Rightarrow> ustr" where
  "u s = map of_char s"

section \<open>Severity classifier (plugins/vuln_scanner.py, get_severity)\<close>

text \<open>
  \<^verbatim>\<open>
  def get_severity(vuln_type):
      high_severity = {"SQL Injection", "Command Injection", "XSS"}
      medium_severity = {"Path Traversal"}
      if vuln_type in high_severity: return "HIGH"
      elif vuln_type in medium_severity: return "MEDIUM"
      else: return "LOW"
  \<close>
\<close>

definition high_severity :: "ustr list" where
  "high_severity = [u ''SQL Injection'', u ''Command Injection'', u ''XSS'']"

definition medium_severity :: "ustr list" where
  "medium_severity = [u ''Path Traversal'']"

definition get_severity :: "ustr \<Rightarrow> ustr" where
  "get_severity vuln_type =
     (if vuln_type \<in> set high_severity then u ''HIGH''
      else if vuln_type \<in> set medium_severity then u ''MEDIUM''
      else u ''LOW'')"

section \<open>The pattern language of the catalog\<close>

text \<open>
  The catalog's rules are Python regular expressions, tried with
  \<^verbatim>\<open>re.search(pattern, line, re.IGNORECASE)\<close>. They use a small part of the regular
  expression language: literal characters, \<^verbatim>\<open>.\<close>, \<^verbatim>\<open>\s\<close>, character classes, the
  quantifiers \<^verbatim>\<open>*\<close>, \<^verbatim>\<open>+\<close>, \<^verbatim>\<open>?\<close> and \<^verbatim>\<open>{n,}\<close> on a single character or class, and a
  negative lookahead \<^verbatim>\<open>(?!...)\<close> over literal characters. There are no groups to capture,
  so whether \<^verbatim>\<open>re.search\<close> finds a match does not depend on the order in which the
  backtracking matcher tries the alternatives: it finds one iff one exists.
\<close>

datatype atom =
    Lit nat              \<comment> \<open>a literal character, compared ignoring case\<close>
  | Dot                  \<comment> \<open>\<^verbatim>\<open>.\<close>: any character but a newline\<close>
  | Space                \<comment> \<open>\<^verbatim>\<open>\s\<close>\<close>
  | OneOf "nat list"     \<comment> \<open>\<^verbatim>\<open>[...]\<close>\<close>
  | NoneOf "nat list"    \<comment> \<open>\<^verbatim>\<open>[^...]\<close>\<close>

datatype item =
    One atom             \<comment> \<open>one character\<close>
  | Opt atom             \<comment> \<open>\<^verbatim>\<open>x?\<close>\<close>
  | AtLeast nat atom     \<comment> \<open>\<^verbatim>\<open>x{n,}\<close>; \<^verbatim>\<open>x*\<close> is \<open>AtLeast 0\<close>, \<^verbatim>\<open>x+\<close> is \<open>AtLeast 1\<close>\<close>
  | NotAhead "atom list" \<comment> \<open>\<^verbatim>\<open>(?!...)\<close>\<close>

type_synonym pattern = "item list"

text \<open>
  \<^verbatim>\<open>str.isspace\<close> and \<^verbatim>\<open>\s\<close> of a \<^verbatim>\<open>str\<close> pattern agree: the Unicode white space
  characters.
\<close>

definition isspace :: "nat \<Rightarrow> bool" where
  "isspace c =
     ((9 \<le> c \<and> c \<le> 13) \<or> (28 \<le> c \<and> c \<le> 32) \<or> c = 133 \<or> c = 160 \<or> c = 5760 \<or>
      (8192 \<le> c \<and> c \<le> 8202) \<or> c = 8232 \<or> c = 8233 \<or> c = 8239 \<or> c = 8287 \<or> c = 12288)"

definition ascii_lower :: "nat \<Rightarrow> nat" where
  "ascii_lower c = (if 65 \<le> c \<and> c \<le> 90 then c + 32 else c)"

text \<open>
  A literal \<open>p\<close> of a pattern compiled with \<^verbatim>\<open>re.IGNORECASE\<close> matches the character \<open>x\<close>
  when both have the same simple lower case. Besides the two ASCII cases of a letter these
  are U+0130 and U+0131 for \<^verbatim>\<open>i\<close>, U+017F for \<^verbatim>\<open>s\<close> and U+212A for \<^verbatim>\<open>k\<close>.
\<close>

definition ci_eq :: "nat \<Rightarrow> nat \<Rightarrow> bool" where
  "ci_eq p x =
     (let l = ascii_lower p in
        x = l \<or> (97 \<le> l \<and> l \<le> 122 \<and> x + 32 = l) \<or>
        (l = 105 \<and> (x = 304 \<or> x = 305)) \<or> (l = 115 \<and> x = 383) \<or> (l = 107 \<and> x = 8490))"

fun atom_ok :: "atom \<Rightarrow> nat \<Rightarrow> bool" where
  "atom_ok (Lit p) x = ci_eq p x"
| "atom_ok Dot x = (x \<noteq> 10)"
| "atom_ok Space x = isspace x"
| "atom_ok (OneOf cs) x = (x \<in> set cs)"
| "atom_ok (NoneOf cs) x = (x \<notin> set cs)"

text \<open>\<open>atoms_at as s\<close>: the characters of \<open>s\<close> start with one character for each atom.\<close>

fun atoms_at :: "atom list \<Rightarrow> ustr \<Rightarrow> bool" where
  "atoms_at [] s = True"
| "atoms_at (a # as) [] = False"
| "atoms_at (a # as) (c # cs) = (atom_ok a c \<and> atoms_at as cs)"

text \<open>\<open>matches_at p s\<close>: the pattern matches some prefix of \<open>s\<close>.\<close>

fun matches_at :: "pattern \<Rightarrow> ustr \<Rightarrow> bool" where
  "matches_at [] s = True"
| "matches_at (One a # rs) s =
     (case s of [] \<Rightarrow> False | c # cs \<Rightarrow> atom_ok a c \<and> matches_at rs cs)"
| "matches_at (Opt a # rs) s =
     (matches_at rs s \<or> (case s of [] \<Rightarrow> False | c # cs \<Rightarrow> atom_ok a c \<and> matches_at rs cs))"
| "matches_at (AtLeast n a # rs) s =
     ((n = 0 \<and> matches_at rs s) \<or>
      (case s of [] \<Rightarrow> False | c # cs \<Rightarrow> atom_ok a c \<and> matches_at (AtLeast (n - 1) a # rs) cs))"
| "matches_at (NotAhead as # rs) s = (\<not> atoms_at as s \<and> matches_at rs s)"

text \<open>\<^verbatim>\<open>re.search\<close>: the pattern matches at some position of the line.\<close>

fun search :: "pattern \<Rightarrow> ustr \<Rightarrow> bool" where
  "search p [] = matches_at p []"
| "search p (c # cs) = (matches_at p (c # cs) \<or> search p cs)"

definition lits :: "string \<Rightarrow> pattern" where
  "lits s = map (\<lambda>c. One (Lit (of_char c))) s"

abbreviation star :: "atom \<Rightarrow> item" where
  "star a \<equiv> AtLeast 0 a"

abbreviation plus1 :: "atom \<Rightarrow> item" where
  "plus1 a \<equiv> AtLeast 1 a"

section \<open>The catalog (plugins/vuln_scanner.py, VULN_PATTERNS)\<close>

text \<open>
  A Python dict keeps its keys in the order of insertion, so the catalog is an association
  list in the order of the source. The quote characters \<^verbatim>\<open>'\<close> and \<^verbatim>\<open>"\<close> are the code points
  39 and 34. The source:
  \<^verbatim>\<open>
  VULN_PATTERNS = {
    "SQL Injection": [
        (r"execute\s*\(\s*['\"].*%.*['\"]\s*%", "String formatting in SQL query"),
        (r"execute\s*\(\s*.*\+.*\)", "String concatenation in SQL query"),
        (r"\.format\s*\(.*SELECT", "String formatting with SELECT")],
    "XSS": [
        (r"innerHTML\s*=\s*[^;]+(?!sanitize)", "Potential XSS via innerHTML"),
        (r"document\.write\s*\(", "Unsafe document.write usage"),
        (r"eval\s*\(", "Dangerous eval() usage")],
    "Command Injection": [
        (r"os\.system\s*\(.*\+", "Command injection via os.system"),
        (r"subprocess\..*shell\s*=\s*True", "Shell injection risk"),
        (r"exec\s*\(.*input", "Executing user input")],
    "Path Traversal": [
        (r"open\s*\(.*input.*\)", "User input in file path"),
        (r"os\.path\.join\s*\(.*request\.", "Request data in path")],
    "Hardcoded Secrets": [
        (r"password\s*=\s*['\"][^'\"]+['\"](?!\{)", "Hardcoded password"),
        (r"api[_-]?key\s*=\s*['\"][^'\"]+['\"](?!\{)", "Hardcoded API key"),
        (r"secret\s*=\s*['\"][^'\"]+['\"](?!\{)", "Hardcoded secret"),
        (r"token\s*=\s*['\"][^'\"]{20,}['\"](?!\{)", "Hardcoded token")]}
  \<close>
\<close>

definition quote :: "nat list" where
  "quote = [39, 34]"

definition VULN_PATTERNS :: "(ustr \<times> (pattern \<times> ustr) list) list" where
  "VULN_PATTERNS =
   [(u ''SQL Injection'',
      [(lits ''execute'' @ [star Space] @ lits ''('' @ [star Space, One (OneOf quote), star Dot]
          @ lits ''%'' @ [star Dot, One (OneOf quote), star Space] @ lits ''%'',
        u ''String formatting in SQL query''),
       (lits ''execute'' @ [star Space] @ lits ''('' @ [star Space, star Dot] @ lits ''+''
          @ [star Dot] @ lits '')'',
        u ''String concatenation in SQL query''),
       (lits ''.format'' @ [star Space] @ lits ''('' @ [star Dot] @ lits ''SELECT'',
        u ''String formatting with SELECT'')]),
    (u ''XSS'',
      [(lits ''innerHTML'' @ [star Space] @ lits ''='' @ [star Space, plus1 (NoneOf [59]),
          NotAhead (map (\<lambda>c. Lit (of_char c)) ''sanitize'')],
        u ''Potential XSS via innerHTML''),
       (lits ''document.write'' @ [star Space] @ lits ''('',
        u ''Unsafe document.write usage''),
       (lits ''eval'' @ [star Space] @ lits ''('',
        u ''Dangerous eval() usage'')]),
    (u ''Command Injection'',
      [(lits ''os.system'' @ [star Space] @ lits ''('' @ [star Dot] @ lits ''+'',
        u ''Command injection via os.system''),
       (lits ''subprocess.'' @ [star Dot] @ lits ''shell'' @ [star Space] @ lits ''=''
          @ [star Space] @ lits ''True'',
        u ''Shell injection risk''),
       (lits ''exec'' @ [star Space] @ lits ''('' @ [star Dot] @ lits ''input'',
        u ''Executing user input'')]),
    (u ''Path Traversal'',
      [(lits ''open'' @ [star Space] @ lits ''('' @ [star Dot] @ lits ''input'' @ [star Dot]
          @ lits '')'',
        u ''User input in file path''),
       (lits ''os.path.join'' @ [star Space] @ lits ''('' @ [star Dot] @ lits ''request.'',
        u ''Request data in path'')]),
    (u ''Hardcoded Secrets'',
      [(lits ''password'' @ [star Space] @ lits ''='' @ [star Space, One (OneOf quote),
          plus1 (NoneOf quote), One (OneOf quote), NotAhead [Lit 123]],
        u ''Hardcoded password''),
       (lits ''api'' @ [Opt (OneOf [95, 45])] @ lits ''key'' @ [star Space] @ lits ''=''
          @ [star Space, One (OneOf quote), plus1 (NoneOf quote), One (OneOf quote),
             NotAhead [Lit 123]],
        u ''Hardcoded API key''),
       (lits ''secret'' @ [star Space] @ lits ''='' @ [star Space, One (OneOf quote),
          plus1 (NoneOf quote), One (OneOf quote), NotAhead [Lit 123]],
        u ''Hardcoded secret''),
       (lits ''token'' @ [star Space] @ lits ''='' @ [star Space, One (OneOf quote),
          AtLeast 20 (NoneOf quote), One (OneOf quote), NotAhead [Lit 123]],
        u ''Hardcoded token'')])]"

section \<open>Line scanner (plugins/vuln_scanner.py, scan_file)\<close>

text \<open>
  A finding is the dict that \<^verbatim>\<open>scan_file\<close> appends, with the keys
  \<^verbatim>\<open>file, line, type, description, code, severity\<close>; the fields are named after the keys.
\<close>

record finding =
  f_file :: ustr
  f_line :: nat
  f_type :: ustr
  f_description :: ustr
  f_code :: ustr
  f_severity :: ustr

text \<open>\<^verbatim>\<open>content.split('\n')\<close>: the pieces between the newlines, one more than there are newlines.\<close>

fun split_from :: "ustr \<Rightarrow> ustr \<Rightarrow> ustr list" where
  "split_from cur [] = [cur]"
| "split_from cur (c # cs) = (if c = 10 then cur # split_from [] cs else split_from (cur @ [c]) cs)"

definition split_lines :: "ustr \<Rightarrow> ustr list" where
  "split_lines content = split_from [] content"

text \<open>\<^verbatim>\<open>line.strip()\<close>: the line without its leading and trailing white space.\<close>

definition strip :: "ustr \<Rightarrow> ustr" where
  "strip s = rev (dropWhile isspace (rev (dropWhile isspace s)))"

text \<open>
  \<^verbatim>\<open>
  for vuln_type, patterns in VULN_PATTERNS.items():
      for pattern, description in patterns:
          for line_num, line in enumerate(lines, 1):
              if re.search(pattern, line, re.IGNORECASE):
                  findings.append({"file": str(file_path), "line": line_num, "type": vuln_type,
                                   "description": description, "code": line.strip(),
                                   "severity": get_severity(vuln_type)})
  \<close>
  The three loops, innermost first; each takes the list \<^verbatim>\<open>findings\<close> built so far and
  returns it with what it appended.
\<close>

fun scan_lines :: "ustr \<Rightarrow> ustr \<Rightarrow> pattern \<Rightarrow> ustr \<Rightarrow> nat \<Rightarrow> ustr list \<Rightarrow> finding list \<Rightarrow> finding list" where
  "scan_lines file_path vtype pat descr line_num [] findings = findings"
| "scan_lines file_path vtype pat descr line_num (l # lines) findings =
     scan_lines file_path vtype pat descr (line_num + 1) lines
       (if search pat l
        then findings @ [\<lparr>f_file = file_path, f_line = line_num, f_type = vtype,
                          f_description = descr, f_code = strip l,
                          f_severity = get_severity vtype\<rparr>]
        else findings)"

fun scan_patterns :: "ustr \<Rightarrow> ustr \<Rightarrow> (pattern \<times> ustr) list \<Rightarrow> ustr list \<Rightarrow> finding list \<Rightarrow> finding list" where
  "scan_patterns file_path vtype [] lines findings = findings"
| "scan_patterns file_path vtype ((pat, descr) # patterns) lines findings =
     scan_patterns file_path vtype patterns lines
       (scan_lines file_path vtype pat descr 1 lines findings)"

fun scan_types :: "ustr \<Rightarrow> (ustr \<times> (pattern \<times> ustr) list) list \<Rightarrow> ustr list \<Rightarrow> finding list \<Rightarrow> finding list" where
  "scan_types file_path [] lines findings = findings"
| "scan_types file_path ((vtype, patterns) # catalog) lines findings =
     scan_types file_path catalog lines (scan_patterns file_path vtype patterns lines findings)"

text \<open>The body of the \<^verbatim>\<open>try\<close> block once the file has been read.\<close>

definition scan_content :: "ustr \<Rightarrow> ustr \<Rightarrow> finding list" where
  "scan_content file_path content = scan_types file_path VULN_PATTERNS (split_lines content) []"

text \<open>
  \<^verbatim>\<open>scan_file\<close> opens the file as UTF-8 text, ignoring what does not decode. Reading is the
  only step of the \<^verbatim>\<open>try\<close> block that can raise, and the handler is \<^verbatim>\<open>pass\<close>, so a
  file that cannot be read gives the empty list. The second argument is what reading the
  file gives: its text, or \<open>None\<close> when \<^verbatim>\<open>open\<close> or \<^verbatim>\<open>read\<close> raises.
\<close>

definition scan_file :: "ustr \<Rightarrow> ustr option \<Rightarrow> finding list" where
  "scan_file file_path readres =
     (case readres of None \<Rightarrow> [] | Some content \<Rightarrow> scan_content file_path content)"

section \<open>Notions used to state the scanner's properties\<close>

text \<open>The finding of a rule \<open>(vtype, descr)\<close> for line number \<open>k\<close> with text \<open>l\<close>.\<close>

definition finding_of :: "ustr \<Rightarrow> ustr \<Rightarrow> ustr \<Rightarrow> nat \<Rightarrow> ustr \<Rightarrow> finding" where
  "finding_of file_path vtype descr k l =
     \<lparr>f_file = file_path, f_line = k, f_type = vtype, f_description = descr,
      f_code = strip l, f_severity = get_severity vtype\<rparr>"

text \<open>The rules of a catalog in declaration order, each with its category.\<close>

definition rules_of :: "(ustr \<times> (pattern \<times> ustr) list) list \<Rightarrow> (ustr \<times> pattern \<times> ustr) list" where
  "rules_of catalog = concat (map (\<lambda>(vtype, patterns). map (\<lambda>(pat, descr). (vtype, pat, descr)) patterns) catalog)"

text \<open>The lines of a text with their numbers, as \<^verbatim>\<open>enumerate(lines, 1)\<close> gives them.\<close>

definition enumerate1 :: "ustr list \<Rightarrow> (nat \<times> ustr) list" where
  "enumerate1 lines = zip [1 ..< Suc (length lines)] lines"

text \<open>The position of the first occurrence of \<open>x\<close> in a list (its length when there is none).\<close>

fun index_of :: "'a \<Rightarrow> 'a list \<Rightarrow> nat" where
  "index_of x [] = 0"
| "index_of x (y # ys) = (if x = y then 0 else Suc (index_of x ys))"

text \<open>
  The place of a finding in the catalog: the position of its category among the
  catalog's keys, and the position of its description among the rules of that category.
\<close>

definition cat_index :: "finding \<Rightarrow> nat" where
  "cat_index f = index_of (f_type f) (map fst VULN_PATTERNS)"

definition rule_index :: "finding \<Rightarrow> nat" where
  "rule_index f =
     (case map_of VULN_PATTERNS (f_type f) of
        None \<Rightarrow> 0
      | Some patterns \<Rightarrow> index_of (f_description f) (map snd patterns))"

text \<open>
  \<open>finding_before f g\<close>: \<open>f\<close> comes strictly before \<open>g\<close> in the order category, then rule,
  then line number.
\<close>

definition finding_before :: "finding \<Rightarrow> finding \<Rightarrow> bool" where
  "finding_before f g =
     (cat_index f < cat_index g \<or>
      (cat_index f = cat_index g \<and>
        (rule_index f < rule_index g \<or>
         (rule_index f = rule_index g \<and> f_line f < f_line g))))"

text \<open>What one rule contributes for the lines \<open>ls\<close>: a finding for each line it matches.\<close>

definition rule_findings :: "ustr \<Rightarrow> ustr list \<Rightarrow> (ustr \<times> pattern \<times> ustr) \<Rightarrow> finding list" where
  "rule_findings file_path ls r =
     (case r of (vtype, pat, descr) \<Rightarrow>
        map (\<lambda>(k, l). finding_of file_path vtype descr k l)
          (filter (\<lambda>(k, l). search pat l) (enumerate1 ls)))"

text \<open>The place of a rule: the place of the findings it makes.\<close>

definition rule_place :: "(ustr \<times> pattern \<times> ustr) \<Rightarrow> nat \<times> nat" where
  "rule_place r =
     (case r of (vtype, pat, descr) \<Rightarrow>
        (index_of vtype (map fst VULN_PATTERNS),
         (case map_of VULN_PATTERNS vtype of
            None \<Rightarrow> 0
          | Some patterns \<Rightarrow> index_of descr (map snd patterns))))"

text \<open>The order of places: category first, then rule.\<close>

definition place_less :: "nat \<times> nat \<Rightarrow> nat \<times> nat \<Rightarrow> bool" where
  "place_less a b = (fst a < fst b \<or> (fst a = fst b \<and> snd a < snd b))"

section \<open>Example inputs\<close>

text \<open>The line \<^verbatim>\<open>query = "SELECT * FROM t WHERE id=" + user_id\<close>.\<close>

definition query_line :: ustr where
  "query_line = u ''query = '' @ [34] @ u ''SELECT * FROM t WHERE id='' @ [34] @ u '' + user_id''"

text \<open>The line \<^verbatim>\<open>cursor.execute("SELECT * FROM t WHERE id=" + user_id)\<close>.\<close>

definition execute_line :: ustr where
  "execute_line =
     u ''cursor.execute('' @ [34] @ u ''SELECT * FROM t WHERE id='' @ [34] @ u '' + user_id)''"

text \<open>The line \<^verbatim>\<open>execute("a%b" % c + d)\<close>.\<close>

definition format_concat_line :: ustr where
  "format_concat_line = u ''execute('' @ [34] @ u ''a%b'' @ [34] @ u '' % c + d)''"

text \<open>The two lines \<^verbatim>\<open>open(input())\<close> and \<^verbatim>\<open>eval(x)\<close>.\<close>

definition open_eval_text :: ustr where
  "open_eval_text = u ''open(input())'' @ [10] @ u ''eval(x)''"

text \<open>The line \<^verbatim>\<open>eval(x)\<close> with a newline after it.\<close>

definition eval_text :: ustr where
  "eval_text = u ''eval(x)'' @ [10]"

text \<open>The catalog's rule for \<^verbatim>\<open>eval\<close>.\<close>

definition eval_rule :: "ustr \<times> pattern \<times> ustr" where
  "eval_rule = (u ''XSS'', lits ''eval'' @ [star Space] @ lits ''('', u ''Dangerous eval() usage'')"

text \<open>The catalog's first rule, for \<^verbatim>\<open>execute("..." % ...)\<close>.\<close>

definition format_rule :: "ustr \<times> pattern \<times> ustr" where
  "format_rule =
     (u ''SQL Injection'',
      lits ''execute'' @ [star Space] @ lits ''('' @ [star Space, One (OneOf quote), star Dot]
        @ lits ''%'' @ [star Dot, One (OneOf quote), star Space] @ lits ''%'',
      u ''String formatting in SQL query'')"

section \<open>File filter and directory walker (plugins/vuln_scanner.py, scan_directory)\<close>

text \<open>
  A \<^verbatim>\<open>pathlib.Path\<close> is kept as the list of its components below the file system root:
  \<^verbatim>\<open>Path(root) / file\<close> appends a component, and \<^verbatim>\<open>str\<close> writes the components with
  slashes.
\<close>

type_synonym path = "ustr list"

definition path_str :: "path \<Rightarrow> ustr" where
  "path_str p = (if p = [] then [47] else concat (map (\<lambda>c. 47 # c) p))"

text \<open>
  What \<^verbatim>\<open>os.walk\<close> can see of a directory: its entries in the order in which the
  operating system lists them, each a file with what reading it gives (see \<open>scan_file\<close>)
  or a directory with its own entries. \<^verbatim>\<open>os.walk\<close> does not follow a symbolic link to a
  directory and passes over a directory it cannot list, so neither appears here.
\<close>

datatype entry = FileE ustr "ustr option" | DirE ustr "entry list"

text \<open>
  \<^verbatim>\<open>PurePath.suffix\<close>: the part of the name from its last dot on, when that dot is neither
  the first nor the last character of the name, and the empty string otherwise.
\<close>

definition rfind_dot :: "ustr \<Rightarrow> nat option" where
  "rfind_dot name =
     (if 46 \<in> set name then Some (length name - 1 - index_of 46 (rev name)) else None)"

definition path_suffix :: "ustr \<Rightarrow> ustr" where
  "path_suffix name =
     (case rfind_dot name of
        None \<Rightarrow> []
      | Some i \<Rightarrow> if 0 < i \<and> i + 1 < length name then drop i name else [])"

definition SCANNABLE_EXTENSIONS :: "ustr list" where
  "SCANNABLE_EXTENSIONS =
     [u ''.py'', u ''.js'', u ''.java'', u ''.php'', u ''.rb'', u ''.go'',
      u ''.c'', u ''.cpp'', u ''.h'', u ''.cs'', u ''.ts'', u ''.jsx'', u ''.tsx'']"

text \<open>
  \<^verbatim>\<open>file_path.suffix.lower() in SCANNABLE_EXTENSIONS\<close>. The suffix of
  \<^verbatim>\<open>Path(root) / file\<close> is the suffix of \<^verbatim>\<open>file\<close>. \<^verbatim>\<open>str.lower\<close> maps no character outside
  ASCII to a letter of one of the extensions, so lowering the ASCII letters decides the
  membership as \<^verbatim>\<open>str.lower\<close> does.
\<close>

definition scannable :: "ustr \<Rightarrow> bool" where
  "scannable name = (map ascii_lower (path_suffix name) \<in> set SCANNABLE_EXTENSIONS)"

text \<open>The names that the walker removes from \<^verbatim>\<open>dirs\<close> before \<^verbatim>\<open>os.walk\<close> descends.\<close>

definition SKIP_DIRS :: "ustr list" where
  "SKIP_DIRS =
     [u ''node_modules'', u ''.git'', u ''__pycache__'', u ''venv'', u ''env'',
      u ''.venv'', u ''dist'', u ''build'', u ''target'']"

text \<open>
  The state of \<^verbatim>\<open>scan_directory\<close>: its two variables, and the paths that were given to
  \<^verbatim>\<open>scan_file\<close>, in the order of the calls. The last one is not a variable of the source;
  it records which files the scan read.
\<close>

record scan_state =
  all_findings :: "finding list"
  files_scanned :: int
  opened :: "path list"

definition add_file :: "scan_state \<Rightarrow> path \<times> ustr option \<Rightarrow> scan_state" where
  "add_file st f =
     st\<lparr>all_findings := all_findings st @ scan_file (path_str (fst f)) (snd f),
        files_scanned := files_scanned st + 1,
        opened := opened st @ [fst f]\<rparr>"

text \<open>
  \<^verbatim>\<open>
  for file in files:
      if files_scanned >= max_files:
          break
      file_path = Path(root) / file
      if file_path.suffix.lower() in SCANNABLE_EXTENSIONS:
          findings = scan_file(file_path)
          all_findings.extend(findings)
          files_scanned += 1
  \<close>
  over the entries of one directory; \<^verbatim>\<open>files\<close> are those that are not directories.
\<close>

fun scan_files :: "int \<Rightarrow> path \<Rightarrow> entry list \<Rightarrow> scan_state \<Rightarrow> scan_state" where
  "scan_files max_files root [] st = st"
| "scan_files max_files root (DirE name sub # es) st = scan_files max_files root es st"
| "scan_files max_files root (FileE name readres # es) st =
     (if files_scanned st \<ge> max_files then st
      else if scannable name
        then scan_files max_files root es (add_file st (root @ [name], readres))
        else scan_files max_files root es st)"

text \<open>
  \<^verbatim>\<open>
  for root, dirs, files in os.walk(path):
      dirs[:] = [d for d in dirs if d not in {'node_modules', ...}]
      for file in files: ...
      if files_scanned >= max_files:
          break
  \<close>
  \<^verbatim>\<open>os.walk\<close> yields a directory before its subdirectories, and then walks the
  subdirectories that are left in \<^verbatim>\<open>dirs\<close>, in their order. \<open>walk_dir\<close> is one round of
  the loop for a directory followed by the rounds for what is below it, and
  \<open>walk_subdirs\<close> goes through the entries of a directory for its subdirectories. The
  Boolean tells whether the loop was left by \<^verbatim>\<open>break\<close>.
\<close>

fun walk_dir :: "int \<Rightarrow> path \<Rightarrow> entry list \<Rightarrow> scan_state \<Rightarrow> bool \<times> scan_state"
  and walk_subdirs :: "int \<Rightarrow> path \<Rightarrow> entry list \<Rightarrow> scan_state \<Rightarrow> bool \<times> scan_state" where
  "walk_dir max_files root listing st =
     (let st' = scan_files max_files root listing st in
      if files_scanned st' \<ge> max_files then (True, st')
      else walk_subdirs max_files root listing st')"
| "walk_subdirs max_files root [] st = (False, st)"
| "walk_subdirs max_files root (FileE name readres # es) st = walk_subdirs max_files root es st"
| "walk_subdirs max_files root (DirE name sub # es) st =
     (if name \<in> set SKIP_DIRS then walk_subdirs max_files root es st
      else case walk_dir max_files (root @ [name]) sub st of
             (True, st') \<Rightarrow> (True, st')
           | (False, st') \<Rightarrow> walk_subdirs max_files root es st')"

text \<open>
  \<^verbatim>\<open>scan_directory(path, max_files)\<close>, for the directory at \<open>path\<close> with the entries
  \<open>listing\<close>. The source returns \<^verbatim>\<open>(all_findings, files_scanned)\<close>.
\<close>

definition scan_directory :: "path \<Rightarrow> entry list \<Rightarrow> int \<Rightarrow> scan_state" where
  "scan_directory path listing max_files =
     snd (walk_dir max_files path listing \<lparr>all_findings = [], files_scanned = 0, opened = []\<rparr>)"

section \<open>Exceptions\<close>

text \<open>
  An exception is kept as its class and the text that \<^verbatim>\<open>str\<close> gives for it. The handlers
  of the plugin manager tell three kinds of classes apart: \<^verbatim>\<open>ImportError\<close> with its subclass
  \<^verbatim>\<open>ModuleNotFoundError\<close>, the other subclasses of \<^verbatim>\<open>Exception\<close>, and the classes that
  derive from \<^verbatim>\<open>BaseException\<close> only, such as \<^verbatim>\<open>KeyboardInterrupt\<close> and \<^verbatim>\<open>SystemExit\<close>.
\<close>

datatype exn_class =
    ImportError
  | ModuleNotFoundError
  | OtherException
  | KeyboardInterrupt
  | SystemExit

record py_exn =
  exn_class :: exn_class
  exn_str :: ustr

text \<open>\<^verbatim>\<open>isinstance(e, ImportError)\<close> and \<^verbatim>\<open>isinstance(e, Exception)\<close>.\<close>

fun is_ImportError :: "exn_class \<Rightarrow> bool" where
  "is_ImportError ImportError = True"
| "is_ImportError ModuleNotFoundError = True"
| "is_ImportError OtherException = False"
| "is_ImportError KeyboardInterrupt = False"
| "is_ImportError SystemExit = False"

fun is_Exception :: "exn_class \<Rightarrow> bool" where
  "is_Exception ImportError = True"
| "is_Exception ModuleNotFoundError = True"
| "is_Exception OtherException = True"
| "is_Exception KeyboardInterrupt = False"
| "is_Exception SystemExit = False"

section \<open>Report renderer (plugins/vuln_scanner.py, format_results)\<close>











section \<open>The scanner's entry point (plugins/vuln_scanner.py, run_plugin)\<close>






section \<open>Notions used to state the walker's properties\<close>

text \<open>The scannable files of one directory, in the order of its entries.\<close>

fun eligible_here :: "path \<Rightarrow> entry list \<Rightarrow> (path \<times> ustr option) list" where
  "eligible_here root [] = []"
| "eligible_here root (DirE name sub # es) = eligible_here root es"
| "eligible_here root (FileE name readres # es) =
     (if scannable name then [(root @ [name], readres)] else []) @ eligible_here root es"

text \<open>
  The traversal order: the scannable files of a directory, then those of each of its
  subdirectories in the order of the entries, and nothing of a subdirectory whose name is
  excluded. These are the files that a walk without a cap reads.
\<close>

fun walk_files :: "path \<Rightarrow> entry list \<Rightarrow> (path \<times> ustr option) list"
  and below_files :: "path \<Rightarrow> entry list \<Rightarrow> (path \<times> ustr option) list" where
  "walk_files root listing = eligible_here root listing @ below_files root listing"
| "below_files root [] = []"
| "below_files root (FileE name readres # es) = below_files root es"
| "below_files root (DirE name sub # es) =
     (if name \<in> set SKIP_DIRS then [] else walk_files (root @ [name]) sub) @ below_files root es"

text \<open>Every file of the tree below \<open>root\<close>, excluded directories included.\<close>

fun tree_files :: "path \<Rightarrow> entry list \<Rightarrow> path list" where
  "tree_files root [] = []"
| "tree_files root (FileE name readres # es) = (root @ [name]) # tree_files root es"
| "tree_files root (DirE name sub # es) = tree_files (root @ [name]) sub @ tree_files root es"

text \<open>The number of files of the tree whose extension is scannable.\<close>

definition count_scannable :: "path \<Rightarrow> entry list \<Rightarrow> nat" where
  "count_scannable root listing = length (filter (\<lambda>p. scannable (last p)) (tree_files root listing))"

text \<open>Reading files one after the other until the count reaches the cap.\<close>

fun absorb :: "int \<Rightarrow> scan_state \<Rightarrow> (path \<times> ustr option) list \<Rightarrow> scan_state" where
  "absorb n st [] = st"
| "absorb n st (f # fs) = (if files_scanned st \<ge> n then st else absorb n (add_file st f) fs)"

text \<open>The tree with nothing inside the directories whose name is excluded.\<close>

fun emptied :: "entry list \<Rightarrow> entry list" where
  "emptied [] = []"
| "emptied (FileE name readres # es) = FileE name readres # emptied es"
| "emptied (DirE name sub # es) =
     DirE name (if name \<in> set SKIP_DIRS then [] else emptied sub) # emptied es"

text \<open>
  A path below the scan root, as the components after the root: it names something, and
  none of the directories on the way has an excluded name.
\<close>

definition clean :: "path \<Rightarrow> bool" where
  "clean rel = (rel \<noteq> [] \<and> (\<forall>d \<in> set (butlast rel). d \<notin> set SKIP_DIRS))"

section \<open>Example trees\<close>

text \<open>A directory that holds only \<^verbatim>\<open>node_modules/a.js\<close> and \<^verbatim>\<open>node_modules/b.js\<close>.\<close>

definition modules_only :: "entry list" where
  "modules_only = [DirE (u ''node_modules'') [FileE (u ''a.js'') (Some []), FileE (u ''b.js'') (Some [])]]"

text \<open>
  A directory with \<^verbatim>\<open>a.py\<close>, \<^verbatim>\<open>src/c.js\<close>, \<^verbatim>\<open>src/notes.txt\<close>, \<^verbatim>\<open>src/x/e.h\<close>,
  \<^verbatim>\<open>src/node_modules/lib/b.js\<close> and \<^verbatim>\<open>z.c\<close>.
\<close>

definition project_tree :: "entry list" where
  "project_tree =
     [FileE (u ''a.py'') (Some (u ''eval(x)'')),
      DirE (u ''src'')
        [FileE (u ''c.js'') (Some []),
         FileE (u ''notes.txt'') (Some []),
         DirE (u ''node_modules'') [DirE (u ''lib'') [FileE (u ''b.js'') (Some [])]],
         DirE (u ''x'') [FileE (u ''e.h'') None]],
      FileE (u ''z.c'') (Some [])]"

text \<open>A directory that holds only \<^verbatim>\<open>a.py\<close>.\<close>

definition one_file :: "entry list" where
  "one_file = [FileE (u ''a.py'') (Some [])]"

text \<open>A directory named \<^verbatim>\<open>dist\<close> that holds \<^verbatim>\<open>a.py\<close> and \<^verbatim>\<open>build/b.py\<close>.\<close>

definition dist_tree :: "entry list" where
  "dist_tree = [FileE (u ''a.py'') (Some []), DirE (u ''build'') [FileE (u ''b.py'') (Some [])]]"

section \<open>Notions and examples for the scanner's entry point\<close>





section \<open>Plugin registry and dispatcher (core/plugin_manager.py)\<close>

text \<open>A Python value as far as the dispatcher tells values apart: a string, or another value.\<close>

datatype 'v pyval = Str ustr | Other 'v

text \<open>
  A loaded module, as far as the dispatcher looks at it: its attributes \<^verbatim>\<open>run_plugin\<close>
  and \<^verbatim>\<open>run\<close>, each absent or a function that is called with \<^verbatim>\<open>args\<close> and returns a
  value or raises.
\<close>

record ('a, 'v) plugin_module =
  attr_run_plugin :: "('a \<Rightarrow> py_exn + 'v pyval) option"
  attr_run :: "('a \<Rightarrow> py_exn + 'v pyval) option"

text \<open>
  The import system: \<^verbatim>\<open>importlib.import_module(module_path)\<close> gives a module or raises.
\<close>

type_synonym ('a, 'v) importer = "ustr \<Rightarrow> py_exn + ('a, 'v) plugin_module"

definition PLUGIN_REGISTRY :: "ustr \<rightharpoonup> ustr \<times> ustr" where
  "PLUGIN_REGISTRY = [u ''vuln_scan'' \<mapsto> (u ''plugins'', u ''vuln_scanner'')]"

definition ALIASES :: "ustr \<rightharpoonup> ustr" where
  "ALIASES = [u ''scan'' \<mapsto> u ''vuln_scan'', u ''vulnerability_scan'' \<mapsto> u ''vuln_scan'']"

text \<open>
  \<^verbatim>\<open>
  def _load_plugin_module(category, module_name):
      try:
          module_path = f"{category}.{module_name}"
          return importlib.import_module(module_path)
      except ImportError:
          try:
              module_path = f"plugins.{module_name}"
              return importlib.import_module(module_path)
          except ImportError as e:
              raise ModuleNotFoundError(
                  f"Plugin not found: {category}.{module_name}\n"
                  f"Error: {e}")
  \<close>
\<close>

definition load_plugin_module ::
    "('a, 'v) importer \<Rightarrow> ustr \<Rightarrow> ustr \<Rightarrow> py_exn + ('a, 'v) plugin_module" where
  "load_plugin_module import_module category module_name =
     (case import_module (category @ u ''.'' @ module_name) of
        Inr m \<Rightarrow> Inr m
      | Inl e1 \<Rightarrow>
          if is_ImportError (exn_class e1) then
            (case import_module (u ''plugins.'' @ module_name) of
               Inr m \<Rightarrow> Inr m
             | Inl e \<Rightarrow>
                 if is_ImportError (exn_class e) then
                   Inl \<lparr>exn_class = ModuleNotFoundError,
                        exn_str = u ''Plugin not found: '' @ category @ u ''.'' @ module_name
                                  @ u ''\<newline>Error: '' @ exn_str e\<rparr>
                 else Inl e)
          else Inl e1)"

text \<open>
  The body of the \<^verbatim>\<open>try\<close> block of \<^verbatim>\<open>run_plugin\<close>:
  \<^verbatim>\<open>
  plugin_module = _load_plugin_module(category, module_name)
  if hasattr(plugin_module, "run_plugin"):
      return plugin_module.run_plugin(args)
  elif hasattr(plugin_module, "run"):
      return plugin_module.run(args)
  else:
      return f"[!] Plugin {module_name} has no run() or run_plugin() function"
  \<close>
\<close>

definition execute_plugin ::
    "('a, 'v) importer \<Rightarrow> ustr \<Rightarrow> ustr \<Rightarrow> 'a \<Rightarrow> py_exn + 'v pyval" where
  "execute_plugin import_module category module_name args =
     (case load_plugin_module import_module category module_name of
        Inl e \<Rightarrow> Inl e
      | Inr plugin_module \<Rightarrow>
          (case attr_run_plugin plugin_module of
             Some f \<Rightarrow> f args
           | None \<Rightarrow>
               (case attr_run plugin_module of
                  Some g \<Rightarrow> g args
                | None \<Rightarrow>
                    Inr (Str (u ''[!] Plugin '' @ module_name
                              @ u '' has no run() or run_plugin() function'')))))"

text \<open>
  \<^verbatim>\<open>
  def run_plugin(task, args=None):
      resolved_task = ALIASES.get(task, task)
      if resolved_task not in PLUGIN_REGISTRY:
          return f"[!] Unknown plugin: {task}"
      category, module_name = PLUGIN_REGISTRY[resolved_task]
      try:
          ...
      except Exception as e:
          return f"[!] Plugin execution failed: {e}"
  \<close>
  The result is \<open>Inr\<close> of the value that \<^verbatim>\<open>run_plugin\<close> returns, or \<open>Inl\<close> of the exception
  that leaves it.
\<close>

definition run_plugin :: "('a, 'v) importer \<Rightarrow> ustr \<Rightarrow> 'a \<Rightarrow> py_exn + 'v pyval" where
  "run_plugin import_module task args =
     (let resolved_task = (case ALIASES task of None \<Rightarrow> task | Some t \<Rightarrow> t) in
      case PLUGIN_REGISTRY resolved_task of
        None \<Rightarrow> Inr (Str (u ''[!] Unknown plugin: '' @ task))
      | Some (category, module_name) \<Rightarrow>
          (case execute_plugin import_module category module_name args of
             Inr v \<Rightarrow> Inr v
           | Inl e \<Rightarrow>
               if is_Exception (exn_class e)
               then Inr (Str (u ''[!] Plugin execution failed: '' @ exn_str e))
               else Inl e))"

section \<open>Notions and examples for the dispatcher\<close>

text \<open>The name that the dispatcher looks up: one step through the aliases.\<close>

definition resolved_task :: "ustr \<Rightarrow> ustr" where
  "resolved_task task = (case ALIASES task of None \<Rightarrow> task | Some t \<Rightarrow> t)"

text \<open>An import system without the plugin: every import raises \<^verbatim>\<open>ModuleNotFoundError\<close>.\<close>

definition no_modules :: "(unit, unit) importer" where
  "no_modules = (\<lambda>module_path.
     Inl \<lparr>exn_class = ModuleNotFoundError, exn_str = u ''No module named '' @ module_path\<rparr>)"



text \<open>An import system whose modules answer with the text of their argument.\<close>

definition echo :: "(ustr, unit) importer" where
  "echo = (\<lambda>module_path.
     Inr \<lparr>attr_run_plugin = Some (\<lambda>args. Inr (Str args)), attr_run = None\<rparr>)"

section \<open>Properties of the severity classifier\<close>

text \<open>
  C4. The severity depends on the category alone, through a fixed table: the three
  injection-style categories (SQL Injection, Command Injection, XSS) are HIGH, Path
  Traversal is MEDIUM, and every other category, Hardcoded Secrets among them, is LOW.
  \<open>get_severity\<close> has the category as its only argument, so nothing else can influence
  the result.
\<close>

theorem get_severity_table:
  "(c \<in> {u ''SQL Injection'', u ''Command Injection'', u ''XSS''} \<longrightarrow> get_severity c = u ''HIGH'') \<and>
   (c = u ''Path Traversal'' \<longrightarrow> get_severity c = u ''MEDIUM'') \<and>
   (c \<notin> {u ''SQL Injection'', u ''Command Injection'', u ''XSS'', u ''Path Traversal''}
      \<longrightarrow> get_severity c = u ''LOW'')"
  by (auto simp: get_severity_def high_severity_def medium_severity_def u_def)

theorem get_severity_table_witness:
  "get_severity (u ''XSS'') = u ''HIGH'' \<and> get_severity (u ''Path Traversal'') = u ''MEDIUM'' \<and>
   get_severity (u ''Hardcoded Secrets'') = u ''LOW''"
  using get_severity_table [of "u ''XSS''"] get_severity_table [of "u ''Path Traversal''"]
    get_severity_table [of "u ''Hardcoded Secrets''"]
  by (simp add: u_def)

section \<open>The line scanner as a comprehension\<close>

text \<open>
  The three loops append, for each rule in declaration order, the findings of the lines
  the rule matches, in the order of the lines.
\<close>

lemma scan_lines_eq:
  "scan_lines fp t p d n ls acc =
     acc @ map (\<lambda>(k, l). finding_of fp t d k l) (filter (\<lambda>(k, l). search p l) (zip [n ..< n + length ls] ls))"
proof (induction ls arbitrary: n acc)
  case Nil
  then show ?case by simp
next
  case (Cons l ls)
  have "[n ..< n + length (l # ls)] = n # [Suc n ..< Suc n + length ls]"
    by (simp add: upt_rec)
  then show ?case
    using Cons.IH [of "Suc n"] by (simp add: finding_of_def)
qed

lemma scan_patterns_eq:
  "scan_patterns fp t ps ls acc = acc @ concat (map (\<lambda>(p, d). rule_findings fp ls (t, p, d)) ps)"
  by (induction ps arbitrary: acc) (auto simp: scan_lines_eq rule_findings_def enumerate1_def)

lemma scan_types_eq:
  "scan_types fp cat ls acc = acc @ concat (map (rule_findings fp ls) (rules_of cat))"
  by (induction cat arbitrary: acc) (auto simp: scan_patterns_eq rules_of_def comp_def case_prod_unfold)

lemma scan_content_eq:
  "scan_content fp content = concat (map (rule_findings fp (split_lines content)) (rules_of VULN_PATTERNS))"
  by (simp add: scan_content_def scan_types_eq)

lemma rule_places:
  "map rule_place (rules_of VULN_PATTERNS) =
     [(0,0),(0,1),(0,2),(1,0),(1,1),(1,2),(2,0),(2,1),(2,2),(3,0),(3,1),(4,0),(4,1),(4,2),(4,3)]"
  by (simp add: rule_place_def rules_of_def VULN_PATTERNS_def u_def)

lemma rule_places_sorted: "sorted_wrt place_less (map rule_place (rules_of VULN_PATTERNS))"
  unfolding rule_places by (simp add: place_less_def)

lemma rule_findings_place:
  "f \<in> set (rule_findings fp ls r) \<Longrightarrow> cat_index f = fst (rule_place r) \<and> rule_index f = snd (rule_place r)"
  by (auto simp: rule_findings_def rule_place_def cat_index_def rule_index_def finding_of_def
      split: prod.splits option.splits)

lemma enumerate1_sorted: "sorted_wrt (\<lambda>a b. fst a < fst b) (enumerate1 ls)"
proof -
  have "map fst (enumerate1 ls) = [1 ..< Suc (length ls)]"
    unfolding enumerate1_def by (rule map_fst_zip) (simp only: length_upt diff_Suc_1)
  then have "sorted_wrt (<) (map fst (enumerate1 ls))"
    by (simp only: sorted_wrt_upt)
  then show ?thesis by (simp add: sorted_wrt_map)
qed

lemma rule_findings_lines_sorted:
  "sorted_wrt (\<lambda>f g. f_line f < f_line g) (rule_findings fp ls r)"
proof -
  obtain t p d where r: "r = (t, p, d)" by (cases r) auto
  have "sorted_wrt (\<lambda>a b. fst a < fst b) (filter (\<lambda>(k, l). search p l) (enumerate1 ls))"
    by (rule sorted_wrt_filter) (rule enumerate1_sorted)
  then show ?thesis
    by (simp add: r rule_findings_def sorted_wrt_map finding_of_def case_prod_unfold)
qed

lemma rule_findings_sorted: "sorted_wrt finding_before (rule_findings fp ls r)"
proof (rule sorted_wrt_mono_rel [OF _ rule_findings_lines_sorted])
  fix f g
  assume "f \<in> set (rule_findings fp ls r)" "g \<in> set (rule_findings fp ls r)" "f_line f < f_line g"
  then show "finding_before f g"
    using rule_findings_place [of f fp ls r] rule_findings_place [of g fp ls r]
    by (simp add: finding_before_def)
qed

lemma sorted_wrt_concat_map:
  "sorted_wrt (\<lambda>x y. \<forall>a\<in>set (F x). \<forall>b\<in>set (F y). R a b) xs \<Longrightarrow>
   (\<forall>x\<in>set xs. sorted_wrt R (F x)) \<Longrightarrow> sorted_wrt R (concat (map F xs))"
  by (induction xs) (auto simp: sorted_wrt_append)

lemma scan_content_sorted: "sorted_wrt finding_before (scan_content fp content)"
proof -
  let ?ls = "split_lines content"
  have "sorted_wrt (\<lambda>r r'. place_less (rule_place r) (rule_place r')) (rules_of VULN_PATTERNS)"
    using rule_places_sorted by (simp add: sorted_wrt_map)
  then have "sorted_wrt (\<lambda>x y. \<forall>a\<in>set (rule_findings fp ?ls x). \<forall>b\<in>set (rule_findings fp ?ls y). finding_before a b)
     (rules_of VULN_PATTERNS)"
  proof (rule sorted_wrt_mono_rel [rotated])
    fix r r'
    assume pl: "place_less (rule_place r) (rule_place r')"
    show "\<forall>a\<in>set (rule_findings fp ?ls r). \<forall>b\<in>set (rule_findings fp ?ls r'). finding_before a b"
    proof (intro ballI)
      fix a b
      assume "a \<in> set (rule_findings fp ?ls r)" "b \<in> set (rule_findings fp ?ls r')"
      then have "cat_index a = fst (rule_place r)" "rule_index a = snd (rule_place r)"
        "cat_index b = fst (rule_place r')" "rule_index b = snd (rule_place r')"
        by (auto dest: rule_findings_place)
      with pl show "finding_before a b"
        by (auto simp: place_less_def finding_before_def)
    qed
  qed
  then show ?thesis
    unfolding scan_content_eq
    by (rule sorted_wrt_concat_map) (simp add: rule_findings_sorted)
qed

lemma in_enumerate1:
  "(k, l) \<in> set (enumerate1 ls) \<longleftrightarrow> 1 \<le> k \<and> k \<le> length ls \<and> l = ls ! (k - 1)"
proof
  assume "(k, l) \<in> set (enumerate1 ls)"
  then obtain i where i: "i < length ls" "k = [1 ..< Suc (length ls)] ! i" "l = ls ! i"
    unfolding enumerate1_def by (auto simp: set_zip simp del: upt_Suc)
  from i(1) have "[1 ..< Suc (length ls)] ! i = 1 + i"
    by (intro nth_upt) simp
  with i show "1 \<le> k \<and> k \<le> length ls \<and> l = ls ! (k - 1)" by simp
next
  assume a: "1 \<le> k \<and> k \<le> length ls \<and> l = ls ! (k - 1)"
  then have "k - 1 < length ls" by arith
  moreover from a have "[1 ..< Suc (length ls)] ! (k - 1) = 1 + (k - 1)"
    by (intro nth_upt) arith
  ultimately show "(k, l) \<in> set (enumerate1 ls)"
    using a unfolding enumerate1_def set_zip
    by (auto simp del: upt_Suc intro!: exI [of _ "k - 1"])
qed

lemma set_rule_findings:
  "set (rule_findings fp ls (t, p, d)) =
     {finding_of fp t d k (ls ! (k - 1)) | k. 1 \<le> k \<and> k \<le> length ls \<and> search p (ls ! (k - 1))}"
proof -
  have "set (rule_findings fp ls (t, p, d)) =
      (\<lambda>(k, l). finding_of fp t d k l) ` {(k, l). (k, l) \<in> set (enumerate1 ls) \<and> search p l}"
    by (auto simp: rule_findings_def)
  also have "{(k, l). (k, l) \<in> set (enumerate1 ls) \<and> search p l} =
      {(k, ls ! (k - 1)) | k. 1 \<le> k \<and> k \<le> length ls \<and> search p (ls ! (k - 1))}"
    by (auto simp: in_enumerate1)
  also have "(\<lambda>(k, l). finding_of fp t d k l) ` \<dots> =
      {finding_of fp t d k (ls ! (k - 1)) | k. 1 \<le> k \<and> k \<le> length ls \<and> search p (ls ! (k - 1))}"
    by auto
  finally show ?thesis .
qed

lemma in_rule_findings:
  "f \<in> set (rule_findings fp ls (t, p, d)) \<longleftrightarrow>
     1 \<le> f_line f \<and> f_line f \<le> length ls \<and> search p (ls ! (f_line f - 1)) \<and>
     f = finding_of fp t d (f_line f) (ls ! (f_line f - 1))"
proof -
  have "f_line (finding_of fp t d k l) = k" for k l
    by (simp add: finding_of_def)
  then show ?thesis
    unfolding set_rule_findings by auto
qed

lemma in_scan_content:
  "f \<in> set (scan_content fp content) \<longleftrightarrow>
     (\<exists>t p d. (t, p, d) \<in> set (rules_of VULN_PATTERNS) \<and>
        1 \<le> f_line f \<and> f_line f \<le> length (split_lines content) \<and>
        search p (split_lines content ! (f_line f - 1)) \<and>
        f = finding_of fp t d (f_line f) (split_lines content ! (f_line f - 1)))"
proof -
  have "f \<in> set (scan_content fp content) \<longleftrightarrow>
      (\<exists>r \<in> set (rules_of VULN_PATTERNS). f \<in> set (rule_findings fp (split_lines content) r))"
    unfolding scan_content_eq by simp
  also have "\<dots> \<longleftrightarrow> (\<exists>t p d. (t, p, d) \<in> set (rules_of VULN_PATTERNS) \<and>
      f \<in> set (rule_findings fp (split_lines content) (t, p, d)))"
    by auto
  finally show ?thesis
    unfolding in_rule_findings by blast
qed

lemma finding_before_irrefl: "\<not> finding_before f f"
  by (simp add: finding_before_def)

lemma sorted_wrt_irrefl_distinct:
  "sorted_wrt R xs \<Longrightarrow> (\<And>x. \<not> R x x) \<Longrightarrow> distinct xs"
  by (induction xs) auto

lemma scan_content_distinct: "distinct (scan_content fp content)"
  using scan_content_sorted finding_before_irrefl by (rule sorted_wrt_irrefl_distinct)

lemma count_list_distinct: "distinct xs \<Longrightarrow> x \<in> set xs \<Longrightarrow> count_list xs x = 1"
  by (induction xs) (auto simp: count_list_0_iff)

text \<open>
  C5. For every file content the findings of the line scanner are in the order category
  (catalog declaration order), then rule (declaration order within the category), then
  line number (ascending, counted from 1): the list is strictly sorted by
  \<open>finding_before\<close>. Every finding is the finding of a rule of the catalog for a line that
  the rule matches, so it carries the rule's category and description and that line's
  trimmed text. Nothing is dropped: each pair of a rule and a line that it matches has its
  finding in the list, exactly once, so a line that several rules match yields several
  findings.
\<close>

theorem scan_file_order:
  "sorted_wrt finding_before (scan_file fp (Some content)) \<and>
   (\<forall>f \<in> set (scan_file fp (Some content)).
      \<exists>t p d. (t, p, d) \<in> set (rules_of VULN_PATTERNS) \<and>
        1 \<le> f_line f \<and> f_line f \<le> length (split_lines content) \<and>
        search p (split_lines content ! (f_line f - 1)) \<and>
        f = finding_of fp t d (f_line f) (split_lines content ! (f_line f - 1))) \<and>
   (\<forall>t p d k. (t, p, d) \<in> set (rules_of VULN_PATTERNS) \<and> k < length (split_lines content) \<and>
      search p (split_lines content ! k) \<longrightarrow>
        count_list (scan_file fp (Some content))
          (finding_of fp t d (Suc k) (split_lines content ! k)) = 1)"
proof (intro conjI ballI allI impI)
  show "sorted_wrt finding_before (scan_file fp (Some content))"
    by (simp add: scan_file_def scan_content_sorted)
next
  fix f assume "f \<in> set (scan_file fp (Some content))"
  then show "\<exists>t p d. (t, p, d) \<in> set (rules_of VULN_PATTERNS) \<and>
        1 \<le> f_line f \<and> f_line f \<le> length (split_lines content) \<and>
        search p (split_lines content ! (f_line f - 1)) \<and>
        f = finding_of fp t d (f_line f) (split_lines content ! (f_line f - 1))"
    by (simp add: scan_file_def in_scan_content)
next
  fix t p d k
  let ?f = "finding_of fp t d (Suc k) (split_lines content ! k)"
  assume a: "(t, p, d) \<in> set (rules_of VULN_PATTERNS) \<and> k < length (split_lines content) \<and>
      search p (split_lines content ! k)"
  have "f_line ?f = Suc k" by (simp add: finding_of_def)
  with a have "?f \<in> set (scan_content fp content)"
    unfolding in_scan_content by (intro exI [of _ t] exI [of _ p] exI [of _ d]) auto
  then have "count_list (scan_content fp content) ?f = 1"
    by (rule count_list_distinct [OF scan_content_distinct])
  then show "count_list (scan_file fp (Some content)) ?f = 1"
    by (simp add: scan_file_def)
qed

lemmas eval_defs = scan_file_def scan_content_def VULN_PATTERNS_def u_def lits_def split_lines_def
  quote_def ci_eq_def ascii_lower_def isspace_def finding_of_def strip_def get_severity_def
  high_severity_def medium_severity_def

section \<open>Properties of the line scanner\<close>

lemma no_empty_match: "(t, p, d) \<in> set (rules_of VULN_PATTERNS) \<Longrightarrow> \<not> search p []"
  by (auto simp: rules_of_def VULN_PATTERNS_def lits_def)

lemma rules_distinct: "distinct (map (\<lambda>(t, p, d). (t, d)) (rules_of VULN_PATTERNS))"
  by (simp add: rules_of_def VULN_PATTERNS_def u_def)

lemma split_from_newline_end: "split_from cur (c @ [10]) = split_from cur c @ [[]]"
  by (induction c arbitrary: cur) auto

lemma split_from_no_newline: "10 \<notin> set l \<Longrightarrow> split_from cur l = [cur @ l]"
  by (induction l arbitrary: cur) auto

lemma length_split_from: "length (split_from cur c) = Suc (count_list c 10)"
  by (induction c arbitrary: cur) auto

lemma split_lines_newline_end: "split_lines (c @ [10]) = split_lines c @ [[]]"
  by (simp add: split_lines_def split_from_newline_end)

lemma split_lines_single: "10 \<notin> set l \<Longrightarrow> split_lines l = [l]"
  by (simp add: split_lines_def split_from_no_newline)

lemma length_split_lines: "length (split_lines c) = Suc (count_list c 10)"
  by (simp add: split_lines_def length_split_from)

text \<open>
  C10. Every finding that the line scanner emits is consistent with the content it was
  made from: its severity is the classifier's value for its category, its line number lies
  between 1 and the number of lines of the content (one more than the number of newline
  characters), and its code is the trimmed text of the line with that number. When the
  content ends with a newline, the last line is empty and no finding is on it, since no
  rule of the catalog matches the empty line.
\<close>

theorem finding_consistent:
  assumes "f \<in> set (scan_file fp (Some content))"
  shows "f_severity f = get_severity (f_type f) \<and>
         1 \<le> f_line f \<and> f_line f \<le> length (split_lines content) \<and>
         length (split_lines content) = Suc (count_list content 10) \<and>
         f_code f = strip (split_lines content ! (f_line f - 1)) \<and>
         (\<forall>c. content = c @ [10] \<longrightarrow>
            last (split_lines content) = [] \<and> f_line f < length (split_lines content))"
proof -
  let ?ls = "split_lines content"
  from assms obtain t p d where r: "(t, p, d) \<in> set (rules_of VULN_PATTERNS)"
    and k: "1 \<le> f_line f" "f_line f \<le> length ?ls"
    and m: "search p (?ls ! (f_line f - 1))"
    and f: "f = finding_of fp t d (f_line f) (?ls ! (f_line f - 1))"
    unfolding scan_file_def option.case in_scan_content by blast
  have sev: "f_severity f = get_severity (f_type f)"
    by (subst (1 2) f) (simp add: finding_of_def)
  have cod: "f_code f = strip (?ls ! (f_line f - 1))"
    by (subst f) (simp add: finding_of_def)
  have nonempty: "?ls ! (f_line f - 1) \<noteq> []"
    using m no_empty_match [OF r] by auto
  have trail: "last ?ls = [] \<and> f_line f < length ?ls" if c: "content = c @ [10]" for c
  proof
    show l: "last ?ls = []" by (simp add: c split_lines_newline_end)
    have "?ls \<noteq> []" by (simp add: c split_lines_newline_end)
    then have "?ls ! (length ?ls - 1) = []"
      using l by (simp add: last_conv_nth)
    with nonempty have "f_line f \<noteq> length ?ls" by auto
    with k show "f_line f < length ?ls" by simp
  qed
  from sev k cod trail show ?thesis
    by (simp add: length_split_lines)
qed

lemma concat_map_if:
  "concat (map (\<lambda>r. if P r then [g r] else []) rs) = map g (filter P rs)"
  by (induction rs) auto

lemma rule_findings_single:
  "rule_findings fp [l] (t, p, d) = (if search p l then [finding_of fp t d 1 l] else [])"
  by (simp add: rule_findings_def enumerate1_def)

lemma rule_findings_single_nl:
  "\<not> search p [] \<Longrightarrow>
   rule_findings fp [l, []] (t, p, d) = (if search p l then [finding_of fp t d 1 l] else [])"
  by (simp add: rule_findings_def enumerate1_def upt_rec)

lemma scan_single_line:
  assumes "10 \<notin> set l" and "content = l \<or> content = l @ [10]"
  shows "scan_content fp content =
     map (\<lambda>(t, p, d). finding_of fp t d 1 l) (filter (\<lambda>(t, p, d). search p l) (rules_of VULN_PATTERNS))"
proof -
  have ls: "split_lines content = [l] \<or> split_lines content = [l, []]"
    using assms by (auto simp: split_lines_single split_lines_newline_end)
  have "map (rule_findings fp (split_lines content)) (rules_of VULN_PATTERNS) =
        map (\<lambda>r. if (\<lambda>(t, p, d). search p l) r then [(\<lambda>(t, p, d). finding_of fp t d 1 l) r] else [])
          (rules_of VULN_PATTERNS)"
  proof (rule map_cong [OF refl])
    fix r assume r: "r \<in> set (rules_of VULN_PATTERNS)"
    obtain t p d where [simp]: "r = (t, p, d)" by (cases r) auto
    from r have "\<not> search p []" by (auto dest: no_empty_match)
    with ls show "rule_findings fp (split_lines content) r =
        (if (\<lambda>(t, p, d). search p l) r then [(\<lambda>(t, p, d). finding_of fp t d 1 l) r] else [])"
      by (auto simp: rule_findings_single rule_findings_single_nl)
  qed
  then show ?thesis
    unfolding scan_content_eq by (simp only: concat_map_if)
qed

text \<open>
  C9, as amended. Let the content be a single line \<open>l\<close>, with or without a newline at its
  end. The scan gives one finding for each rule of the catalog that \<open>l\<close> triggers, in
  catalog order, and nothing else. So for every rule that \<open>l\<close> triggers there is exactly one
  finding with that rule's category and description, and it has line number 1 and the
  severity of the rule's category. The whole result has as many findings as \<open>l\<close> triggers
  rules, which can be more than one.
\<close>

theorem single_line_findings:
  assumes "10 \<notin> set l" and "content = l \<or> content = l @ [10]"
  shows "scan_file fp (Some content) =
           map (\<lambda>(t, p, d). finding_of fp t d 1 l)
             (filter (\<lambda>(t, p, d). search p l) (rules_of VULN_PATTERNS)) \<and>
         (\<forall>t p d. (t, p, d) \<in> set (rules_of VULN_PATTERNS) \<and> search p l \<longrightarrow>
            length (filter (\<lambda>f. f_type f = t \<and> f_description f = d) (scan_file fp (Some content))) = 1 \<and>
            (\<forall>f \<in> set (scan_file fp (Some content)). f_type f = t \<and> f_description f = d \<longrightarrow>
               f_line f = 1 \<and> f_severity f = get_severity t))"
proof (intro conjI allI impI ballI)
  show eq: "scan_file fp (Some content) =
           map (\<lambda>(t, p, d). finding_of fp t d 1 l)
             (filter (\<lambda>(t, p, d). search p l) (rules_of VULN_PATTERNS))"
    using scan_single_line [OF assms] by (simp add: scan_file_def)
  fix t p d
  assume a: "(t, p, d) \<in> set (rules_of VULN_PATTERNS) \<and> search p l"
  have "filter (\<lambda>f. f_type f = t \<and> f_description f = d) (scan_file fp (Some content)) =
      map (\<lambda>(t, p, d). finding_of fp t d 1 l)
        (filter (\<lambda>r. (case r of (t', p', d') \<Rightarrow> (t', d')) = (t, d))
           (filter (\<lambda>(t, p, d). search p l) (rules_of VULN_PATTERNS)))"
    unfolding eq by (simp add: filter_map comp_def case_prod_unfold finding_of_def)
  also have "length \<dots> = length (filter (\<lambda>r. (case r of (t', p', d') \<Rightarrow> (t', d')) = (t, d))
           (filter (\<lambda>(t, p, d). search p l) (rules_of VULN_PATTERNS)))"
    by simp
  also have "\<dots> = 1"
  proof -
    have d1: "distinct (map (\<lambda>(t, p, d). (t, d)) (filter (\<lambda>(t, p, d). search p l) (rules_of VULN_PATTERNS)))"
      using rules_distinct by (rule distinct_map_filter)
    have "(t, d) \<in> set (map (\<lambda>(t, p, d). (t, d)) (filter (\<lambda>(t, p, d). search p l) (rules_of VULN_PATTERNS)))"
      using a by force
    with d1 have "count_list (map (\<lambda>(t, p, d). (t, d)) (filter (\<lambda>(t, p, d). search p l) (rules_of VULN_PATTERNS))) (t, d) = 1"
      by (rule count_list_distinct)
    then show ?thesis
      by (simp add: count_list_eq_length_filter filter_map comp_def eq_commute)
  qed
  finally show "length (filter (\<lambda>f. f_type f = t \<and> f_description f = d) (scan_file fp (Some content))) = 1" .
  fix f
  assume "f \<in> set (scan_file fp (Some content))" "f_type f = t \<and> f_description f = d"
  then show "f_line f = 1" "f_severity f = get_severity t"
    unfolding eq by (auto simp: finding_of_def)
qed

section \<open>The scanner on example inputs\<close>

lemma open_eval_text_eval:
  "scan_file (u ''a.py'') (Some open_eval_text) =
     [finding_of (u ''a.py'') (u ''XSS'') (u ''Dangerous eval() usage'') 2 (u ''eval(x)''),
      finding_of (u ''a.py'') (u ''Path Traversal'') (u ''User input in file path'') 1 (u ''open(input())'')]"
  by (simp add: eval_defs open_eval_text_def)

lemma open_eval_text_split: "split_lines open_eval_text = [u ''open(input())'', u ''eval(x)'']"
  by (simp add: split_lines_def u_def open_eval_text_def)

lemma eval_rule_in_catalog: "eval_rule \<in> set (rules_of VULN_PATTERNS)"
  by (simp add: rules_of_def VULN_PATTERNS_def eval_rule_def)

lemma eval_rule_matches: "search (fst (snd eval_rule)) (u ''eval(x)'')"
  by (simp add: eval_rule_def lits_def u_def ci_eq_def ascii_lower_def isspace_def)

theorem scan_file_order_witness:
  "sorted_wrt finding_before (scan_file (u ''a.py'') (Some open_eval_text)) \<and>
   count_list (scan_file (u ''a.py'') (Some open_eval_text))
     (finding_of (u ''a.py'') (u ''XSS'') (u ''Dangerous eval() usage'') 2 (u ''eval(x)'')) = 1 \<and>
   map f_line (scan_file (u ''a.py'') (Some open_eval_text)) = [2, 1]"
proof -
  let ?c = "open_eval_text"
  note t = scan_file_order [of "u ''a.py''" ?c]
  have 1: "sorted_wrt finding_before (scan_file (u ''a.py'') (Some ?c))"
    using t by (rule conjunct1)
  have "(fst eval_rule, fst (snd eval_rule), snd (snd eval_rule)) \<in> set (rules_of VULN_PATTERNS) \<and>
      1 < length (split_lines ?c) \<and> search (fst (snd eval_rule)) (split_lines ?c ! 1)"
    using eval_rule_in_catalog eval_rule_matches by (simp add: open_eval_text_split)
  with t have "count_list (scan_file (u ''a.py'') (Some ?c))
     (finding_of (u ''a.py'') (fst eval_rule) (snd (snd eval_rule)) (Suc 1) (split_lines ?c ! 1)) = 1"
    by blast
  then have 2: "count_list (scan_file (u ''a.py'') (Some ?c))
     (finding_of (u ''a.py'') (u ''XSS'') (u ''Dangerous eval() usage'') 2 (u ''eval(x)'')) = 1"
    by (simp add: open_eval_text_split eval_rule_def numeral_2_eq_2)
  have 3: "map f_line (scan_file (u ''a.py'') (Some ?c)) = [2, 1]"
    by (simp add: open_eval_text_eval finding_of_def)
  from 1 2 3 show ?thesis by simp
qed

lemma eval_text_eval:
  "scan_file (u ''a.js'') (Some eval_text) =
     [finding_of (u ''a.js'') (u ''XSS'') (u ''Dangerous eval() usage'') 1 (u ''eval(x)'')]"
  by (simp add: eval_defs eval_text_def)

theorem finding_consistent_witness:
  "finding_of (u ''a.js'') (u ''XSS'') (u ''Dangerous eval() usage'') 1 (u ''eval(x)'')
     \<in> set (scan_file (u ''a.js'') (Some eval_text)) \<and>
   length (split_lines eval_text) = 2 \<and>
   f_line (finding_of (u ''a.js'') (u ''XSS'') (u ''Dangerous eval() usage'') 1 (u ''eval(x)''))
     < length (split_lines eval_text)"
proof -
  let ?f = "finding_of (u ''a.js'') (u ''XSS'') (u ''Dangerous eval() usage'') 1 (u ''eval(x)'')"
  have m: "?f \<in> set (scan_file (u ''a.js'') (Some eval_text))"
    by (simp add: eval_text_eval)
  note t = finding_consistent [OF m]
  from t have "length (split_lines eval_text) = Suc (count_list eval_text 10)" by blast
  then have l: "length (split_lines eval_text) = 2" by (simp add: u_def eval_text_def)
  from t have "\<forall>c. eval_text = c @ [10] \<longrightarrow> f_line ?f < length (split_lines eval_text)" by blast
  then have "f_line ?f < length (split_lines eval_text)" by (simp add: eval_text_def)
  with m l show ?thesis by simp
qed

lemma query_line_eval: "scan_file fp (Some query_line) = []"
  by (simp add: eval_defs query_line_def)

lemma execute_line_eval:
  "scan_file fp (Some execute_line) =
     [\<lparr>f_file = fp, f_line = 1, f_type = u ''SQL Injection'',
       f_description = u ''String concatenation in SQL query'',
       f_code = execute_line, f_severity = u ''HIGH''\<rparr>]"
  by (simp add: eval_defs execute_line_def)

lemma format_concat_line_eval:
  "scan_file fp (Some format_concat_line) =
     [finding_of fp (u ''SQL Injection'') (u ''String formatting in SQL query'') 1 format_concat_line,
      finding_of fp (u ''SQL Injection'') (u ''String concatenation in SQL query'') 1 format_concat_line]"
  by (simp add: eval_defs format_concat_line_def)

text \<open>
  C3, the claim as stated fails: the line \<^verbatim>\<open>query = "SELECT * FROM t WHERE id=" + user_id\<close>
  yields no finding at all.
\<close>

theorem query_line_no_finding:
  "scan_file (u ''app.py'') (Some query_line) = [] \<and>
   length (scan_file (u ''app.py'') (Some query_line)) \<noteq> 1"
  by (simp add: query_line_eval)

text \<open>
  C3, as amended. No rule of the catalog matches the line
  \<^verbatim>\<open>query = "SELECT * FROM t WHERE id=" + user_id\<close>: each SQL Injection rule asks for a call
  \<^verbatim>\<open>execute(\<close> or \<^verbatim>\<open>.format(\<close>. Scanning it yields no finding. The same concatenation
  passed to \<^verbatim>\<open>execute\<close>, \<^verbatim>\<open>cursor.execute("SELECT * FROM t WHERE id=" + user_id)\<close>, yields
  exactly one finding, with HIGH severity, the SQL Injection category and line number 1.
\<close>

theorem sql_concatenation_findings:
  "scan_file fp (Some query_line) = [] \<and>
   scan_file fp (Some execute_line) =
     [\<lparr>f_file = fp, f_line = 1, f_type = u ''SQL Injection'',
       f_description = u ''String concatenation in SQL query'',
       f_code = execute_line, f_severity = u ''HIGH''\<rparr>]"
  by (simp add: query_line_eval execute_line_eval)

theorem sql_concatenation_findings_witness:
  "map f_severity (scan_file (u ''app.py'') (Some execute_line)) = [u ''HIGH'']"
  using sql_concatenation_findings [of "u ''app.py''"] by simp

lemma format_rule_in_catalog: "format_rule \<in> set (rules_of VULN_PATTERNS)"
  by (simp add: rules_of_def VULN_PATTERNS_def format_rule_def)

lemma format_rule_matches: "search (fst (snd format_rule)) format_concat_line"
  by (simp add: format_rule_def format_concat_line_def lits_def u_def quote_def ci_eq_def
      ascii_lower_def isspace_def)

lemma format_concat_line_single: "10 \<notin> set format_concat_line"
  by (simp add: format_concat_line_def u_def)

text \<open>
  C9, the claim as stated fails: the line \<^verbatim>\<open>execute("a%b" % c + d)\<close> triggers the first rule
  of the catalog, and scanning it yields two findings, not one.
\<close>

theorem format_concat_line_two_findings:
  "format_rule \<in> set (rules_of VULN_PATTERNS) \<and>
   search (fst (snd format_rule)) format_concat_line \<and>
   split_lines format_concat_line = [format_concat_line] \<and>
   length (scan_file (u ''db.py'') (Some format_concat_line)) = 2"
  using format_rule_in_catalog format_rule_matches format_concat_line_single
  by (simp add: format_concat_line_eval split_lines_single)

theorem single_line_findings_witness:
  "length (filter (\<lambda>f. f_type f = u ''SQL Injection'' \<and>
                       f_description f = u ''String formatting in SQL query'')
             (scan_file (u ''db.py'') (Some format_concat_line))) = 1 \<and>
   length (filter (\<lambda>(t, p, d). search p format_concat_line) (rules_of VULN_PATTERNS)) = 2"
proof -
  note t = single_line_findings [OF format_concat_line_single disjI1 [OF refl], of "u ''db.py''"]
  have "(fst format_rule, fst (snd format_rule), snd (snd format_rule)) \<in> set (rules_of VULN_PATTERNS) \<and>
      search (fst (snd format_rule)) format_concat_line"
    using format_rule_in_catalog format_rule_matches by simp
  with t have "length (filter (\<lambda>f. f_type f = fst format_rule \<and> f_description f = snd (snd format_rule))
             (scan_file (u ''db.py'') (Some format_concat_line))) = 1"
    by blast
  then have 1: "length (filter (\<lambda>f. f_type f = u ''SQL Injection'' \<and>
                       f_description f = u ''String formatting in SQL query'')
             (scan_file (u ''db.py'') (Some format_concat_line))) = 1"
    by (simp add: format_rule_def)
  from t have "length (scan_file (u ''db.py'') (Some format_concat_line)) =
      length (filter (\<lambda>(t, p, d). search p format_concat_line) (rules_of VULN_PATTERNS))"
    by simp
  then have 2: "length (filter (\<lambda>(t, p, d). search p format_concat_line) (rules_of VULN_PATTERNS)) = 2"
    by (simp add: format_concat_line_eval)
  from 1 2 show ?thesis by simp
qed

section \<open>Properties of the directory walker\<close>

lemma absorb_full: "files_scanned st \<ge> n \<Longrightarrow> absorb n st fs = st"
  by (cases fs) auto

lemma absorb_append: "absorb n st (xs @ ys) = absorb n (absorb n st xs) ys"
  by (induction xs arbitrary: st) (auto simp: absorb_full)

lemma scan_files_absorb: "scan_files n root es st = absorb n st (eligible_here root es)"
proof (induction es arbitrary: st)
  case Nil
  then show ?case by simp
next
  case (Cons e es)
  show ?case
  proof (cases e)
    case (FileE name readres)
    with Cons show ?thesis by (auto simp: absorb_full)
  next
    case (DirE name sub)
    with Cons show ?thesis by simp
  qed
qed

lemma walk_absorb:
  "walk_dir n root listing st =
     (files_scanned (absorb n st (walk_files root listing)) \<ge> n, absorb n st (walk_files root listing))"
  "files_scanned st < n \<Longrightarrow> walk_subdirs n root es st =
     (files_scanned (absorb n st (below_files root es)) \<ge> n, absorb n st (below_files root es))"
proof (induction n root listing st and n root es st rule: walk_dir_walk_subdirs.induct)
  case (1 max_files root listing st)
  let ?st' = "scan_files max_files root listing st"
  show ?case
  proof (cases "files_scanned ?st' \<ge> max_files")
    case True
    then show ?thesis
      by (simp add: absorb_append scan_files_absorb absorb_full Let_def)
  next
    case False
    then have "walk_subdirs max_files root listing ?st' =
        (files_scanned (absorb max_files ?st' (below_files root listing)) \<ge> max_files,
         absorb max_files ?st' (below_files root listing))"
      using "1.IH" [OF refl] by simp
    with False show ?thesis
      by (simp add: absorb_append scan_files_absorb Let_def)
  qed
next
  case (2 max_files root st)
  then show ?case by simp
next
  case (3 max_files root name readres es st)
  then show ?case by simp
next
  case (4 max_files root name sub es st)
  show ?case
  proof (cases "name \<in> set SKIP_DIRS")
    case True
    with 4 show ?thesis by simp
  next
    case False
    let ?r = "absorb max_files st (walk_files (root @ [name]) sub)"
    have w: "walk_dir max_files (root @ [name]) sub st = (files_scanned ?r \<ge> max_files, ?r)"
      using "4.IH"(2) [OF False] .
    show ?thesis
    proof (cases "files_scanned ?r \<ge> max_files")
      case True
      with False w show ?thesis
        by (simp add: absorb_append absorb_full del: walk_dir.simps walk_files.simps)
    next
      case full: False
      then have "walk_subdirs max_files root es ?r =
          (files_scanned (absorb max_files ?r (below_files root es)) \<ge> max_files,
           absorb max_files ?r (below_files root es))"
        using "4.IH"(3) [OF False w [symmetric]] by simp
      with False w full show ?thesis
        by (simp add: absorb_append del: walk_dir.simps walk_files.simps)
    qed
  qed
qed

lemma scan_directory_absorb:
  "scan_directory path listing n =
     absorb n \<lparr>all_findings = [], files_scanned = 0, opened = []\<rparr> (walk_files path listing)"
  by (simp add: scan_directory_def walk_absorb(1) del: walk_dir.simps walk_files.simps)

lemma absorb_take:
  "absorb n st fs = foldl add_file st (take (nat (n - files_scanned st)) fs)"
proof (induction fs arbitrary: st)
  case Nil
  then show ?case by simp
next
  case (Cons f fs)
  show ?case
  proof (cases "files_scanned st \<ge> n")
    case True
    then show ?thesis by simp
  next
    case False
    then have "nat (n - files_scanned st) = Suc (nat (n - files_scanned (add_file st f)))"
      by (simp add: add_file_def nat_diff_distrib Suc_nat_eq_nat_zadd1)
    with False Cons show ?thesis by simp
  qed
qed

lemma foldl_add_file:
  "files_scanned (foldl add_file st xs) = files_scanned st + int (length xs)"
  "opened (foldl add_file st xs) = opened st @ map fst xs"
  "all_findings (foldl add_file st xs) =
     all_findings st @ concat (map (\<lambda>f. scan_file (path_str (fst f)) (snd f)) xs)"
  by (induction xs arbitrary: st) (auto simp: add_file_def)

lemma scan_directory_take:
  "scan_directory path listing n =
     foldl add_file \<lparr>all_findings = [], files_scanned = 0, opened = []\<rparr>
       (take (nat n) (walk_files path listing))"
  by (simp add: scan_directory_absorb absorb_take del: walk_files.simps)

text \<open>
  C2, as amended. Let \<open>M\<close> be the number of extension-eligible files of the tree that do
  not lie beneath a directory with an excluded name, that is, the length of the traversal
  \<open>walk_files\<close>, and let \<open>0 \<le> N < M\<close>. Scanning with \<^verbatim>\<open>max_files = N\<close> reads exactly the first
  \<open>N\<close> files of the traversal, in that order, returns their findings, and returns the
  count \<open>N\<close>. The cap counts over the whole traversal: the traversal runs through all the
  directories.
\<close>

theorem scan_directory_cap:
  assumes "0 \<le> n" and "n < int (length (walk_files path listing))"
  shows "files_scanned (scan_directory path listing n) = n \<and>
         opened (scan_directory path listing n) = map fst (take (nat n) (walk_files path listing)) \<and>
         all_findings (scan_directory path listing n) =
           concat (map (\<lambda>f. scan_file (path_str (fst f)) (snd f)) (take (nat n) (walk_files path listing)))"
proof -
  from assms have "length (take (nat n) (walk_files path listing)) = nat n"
    by (simp del: walk_files.simps)
  with assms(1) show ?thesis
    unfolding scan_directory_take by (simp add: foldl_add_file del: walk_files.simps)
qed

lemma eligible_here_clean:
  "f \<in> set (eligible_here root es) \<Longrightarrow> \<exists>rel. fst f = root @ rel \<and> clean rel"
proof (induction es)
  case Nil
  then show ?case by simp
next
  case (Cons e es)
  then show ?case by (cases e) (auto simp: clean_def split: if_splits)
qed

lemma walk_files_clean:
  "f \<in> set (walk_files root listing) \<Longrightarrow> \<exists>rel. fst f = root @ rel \<and> clean rel"
  "f \<in> set (below_files root es) \<Longrightarrow> \<exists>rel. fst f = root @ rel \<and> clean rel"
proof (induction root listing and root es rule: walk_files_below_files.induct)
  case (1 root listing)
  then show ?case by (auto dest: eligible_here_clean)
next
  case (2 root)
  then show ?case by simp
next
  case (3 root name readres es)
  then show ?case by simp
next
  case (4 root name sub es)
  from "4.prems" consider
    (sub) "name \<notin> set SKIP_DIRS" "f \<in> set (walk_files (root @ [name]) sub)"
    | (rest) "f \<in> set (below_files root es)"
    by (auto split: if_splits simp del: walk_files.simps)
  then show ?case
  proof cases
    case sub
    then obtain rel where rel: "fst f = (root @ [name]) @ rel" "clean rel"
      using "4.IH"(1) by blast
    then have "clean (name # rel)"
      using sub(1) by (auto simp: clean_def)
    with rel(1) show ?thesis by (intro exI [of _ "name # rel"]) simp
  next
    case rest
    then show ?thesis using "4.IH"(2) by blast
  qed
qed

lemma opened_subset:
  "set (opened (scan_directory path listing n)) \<subseteq> fst ` set (walk_files path listing)"
proof -
  have "set (opened (scan_directory path listing n)) = fst ` set (take (nat n) (walk_files path listing))"
    unfolding scan_directory_take by (simp add: foldl_add_file del: walk_files.simps)
  also have "\<dots> \<subseteq> fst ` set (walk_files path listing)"
    by (intro image_mono set_take_subset)
  finally show ?thesis .
qed

lemma eligible_here_emptied: "eligible_here root (emptied es) = eligible_here root es"
proof (induction es)
  case Nil
  then show ?case by simp
next
  case (Cons e es)
  then show ?case by (cases e) auto
qed

lemma walk_files_emptied:
  "walk_files root (emptied listing) = walk_files root listing"
  "below_files root (emptied es) = below_files root es"
proof (induction root listing and root es rule: walk_files_below_files.induct)
  case (1 root listing)
  then show ?case by (simp add: eligible_here_emptied)
next
  case (2 root)
  then show ?case by simp
next
  case (3 root name readres es)
  then show ?case by simp
next
  case (4 root name sub es)
  then show ?case by (simp del: walk_files.simps)
qed

lemma tree_files_below:
  "q \<in> set (tree_files root es) \<Longrightarrow> \<exists>rel. q = root @ rel \<and> rel \<noteq> []"
proof (induction root es rule: tree_files.induct)
  case (1 root)
  then show ?case by simp
next
  case (2 root name readres es)
  then show ?case by auto
next
  case (3 root name sub es)
  from "3.prems" consider
    (sub) "q \<in> set (tree_files (root @ [name]) sub)" | (rest) "q \<in> set (tree_files root es)"
    by auto
  then show ?case
  proof cases
    case sub
    then obtain rel where "q = (root @ [name]) @ rel" using "3.IH"(1) by blast
    then show ?thesis by (intro exI [of _ "name # rel"]) simp
  next
    case rest
    then show ?thesis using "3.IH"(2) by blast
  qed
qed

lemma eligible_here_mem:
  "scannable name \<Longrightarrow> FileE name readres \<in> set es \<Longrightarrow>
     root @ [name] \<in> fst ` set (eligible_here root es)"
proof (induction es)
  case Nil
  then show ?case by simp
next
  case (Cons e es)
  then show ?case by (cases e) (auto simp: image_Un)
qed

lemma walk_files_Cons:
  "fst ` set (walk_files root es) \<subseteq> fst ` set (walk_files root (e # es))"
  by (cases e) (auto simp: image_Un)

lemma walk_files_sub:
  "name \<notin> set SKIP_DIRS \<Longrightarrow>
     fst ` set (walk_files (root @ [name]) sub) \<subseteq> fst ` set (walk_files root (DirE name sub # es))"
  by (auto simp: image_Un)

lemma tree_files_walked:
  "q \<in> set (tree_files root es) \<Longrightarrow> scannable (last q) \<Longrightarrow>
   \<forall>d \<in> set (butlast (drop (length root) q)). d \<notin> set SKIP_DIRS \<Longrightarrow>
     q \<in> fst ` set (walk_files root es)"
proof (induction root es rule: tree_files.induct)
  case (1 root)
  then show ?case by simp
next
  case (2 root name readres es)
  from "2.prems"(1) consider (here) "q = root @ [name]" | (rest) "q \<in> set (tree_files root es)"
    by auto
  then show ?case
  proof cases
    case here
    with "2.prems"(2) have "scannable name" by simp
    then have "root @ [name] \<in> fst ` set (eligible_here root (FileE name readres # es))"
      using eligible_here_mem [of name readres "FileE name readres # es" root] by simp
    with here show ?thesis by (auto simp: image_Un)
  next
    case rest
    then have "q \<in> fst ` set (walk_files root es)"
      using "2.IH" "2.prems"(2,3) by blast
    then show ?thesis using walk_files_Cons [of root es "FileE name readres"] by blast
  qed
next
  case (3 root name sub es)
  from "3.prems"(1) consider
    (sub) "q \<in> set (tree_files (root @ [name]) sub)" | (rest) "q \<in> set (tree_files root es)"
    by auto
  then show ?case
  proof cases
    case sub
    then obtain rel where rel: "q = (root @ [name]) @ rel" "rel \<noteq> []"
      using tree_files_below by blast
    then have d: "butlast (drop (length root) q) = name # butlast rel"
      by simp
    with "3.prems"(3) have name: "name \<notin> set SKIP_DIRS" by simp
    from rel d "3.prems"(3)
    have "\<forall>d \<in> set (butlast (drop (length (root @ [name])) q)). d \<notin> set SKIP_DIRS"
      by simp
    then have "q \<in> fst ` set (walk_files (root @ [name]) sub)"
      using "3.IH"(1) sub "3.prems"(2) by blast
    then show ?thesis using walk_files_sub [OF name, of root sub es] by blast
  next
    case rest
    then have "q \<in> fst ` set (walk_files root es)"
      using "3.IH"(2) "3.prems"(2,3) by blast
    then show ?thesis using walk_files_Cons [of root es "DirE name sub"] by blast
  qed
qed

lemma opened_all:
  "int (length (walk_files path listing)) \<le> max_files \<Longrightarrow>
     opened (scan_directory path listing max_files) = map fst (walk_files path listing)"
  unfolding scan_directory_take by (simp add: foldl_add_file del: walk_files.simps)

text \<open>
  C6, as amended. A file of the tree that lies beneath a directory below the scan root
  whose name is in the exclusion set, at any depth, is never read by the directory scan.
  The walker does not go into such a directory: the scan gives the same result when these
  directories are empty. The scan root itself is walked whatever its name is: when the cap
  is not reached, every file of the tree with a scannable extension and with no excluded
  name among the directories between the root and the file is read, and the name of the
  root does not matter.
\<close>

theorem excluded_never_scanned:
  "(\<forall>p \<in> set (tree_files path listing).
      (\<exists>d \<in> set (butlast (drop (length path) p)). d \<in> set SKIP_DIRS) \<longrightarrow>
        p \<notin> set (opened (scan_directory path listing max_files))) \<and>
   scan_directory path (emptied listing) max_files = scan_directory path listing max_files \<and>
   (\<forall>q \<in> set (tree_files path listing).
      int (length (walk_files path listing)) \<le> max_files \<and> scannable (last q) \<and>
      (\<forall>d \<in> set (butlast (drop (length path) q)). d \<notin> set SKIP_DIRS) \<longrightarrow>
        q \<in> set (opened (scan_directory path listing max_files)))"
proof (intro conjI ballI impI)
  fix p
  assume p: "p \<in> set (tree_files path listing)"
    and ex: "\<exists>d \<in> set (butlast (drop (length path) p)). d \<in> set SKIP_DIRS"
  show "p \<notin> set (opened (scan_directory path listing max_files))"
  proof
    assume "p \<in> set (opened (scan_directory path listing max_files))"
    then obtain f where "f \<in> set (walk_files path listing)" "p = fst f"
      using opened_subset by blast
    then obtain rel where "p = path @ rel" "clean rel"
      using walk_files_clean(1) by blast
    with ex show False by (auto simp: clean_def)
  qed
next
  show "scan_directory path (emptied listing) max_files = scan_directory path listing max_files"
    unfolding scan_directory_absorb by (simp only: walk_files_emptied)
next
  fix q
  assume q: "q \<in> set (tree_files path listing)"
    and a: "int (length (walk_files path listing)) \<le> max_files \<and> scannable (last q) \<and>
      (\<forall>d \<in> set (butlast (drop (length path) q)). d \<notin> set SKIP_DIRS)"
  from a have "q \<in> fst ` set (walk_files path listing)"
    using tree_files_walked [OF q] by blast
  moreover from a have "opened (scan_directory path listing max_files) = map fst (walk_files path listing)"
    using opened_all by blast
  ultimately show "q \<in> set (opened (scan_directory path listing max_files))"
    by (simp del: walk_files.simps)
qed

lemma modules_only_eval:
  "count_scannable [u ''srv''] modules_only = 2"
  "files_scanned (scan_directory [u ''srv''] modules_only 1) = 0"
  by (simp_all add: count_scannable_def modules_only_def scan_directory_def scannable_def u_def
      path_suffix_def rfind_dot_def SCANNABLE_EXTENSIONS_def SKIP_DIRS_def ascii_lower_def)

lemmas walk_eval_defs = scan_directory_def scannable_def u_def path_suffix_def rfind_dot_def
  SCANNABLE_EXTENSIONS_def SKIP_DIRS_def ascii_lower_def add_file_def Let_def

lemma project_tree_walk:
  "map fst (walk_files [u ''srv''] project_tree) =
     [[u ''srv'', u ''a.py''], [u ''srv'', u ''z.c''], [u ''srv'', u ''src'', u ''c.js''],
      [u ''srv'', u ''src'', u ''x'', u ''e.h'']]"
  by (simp add: project_tree_def walk_eval_defs)

lemma project_tree_files:
  "[u ''srv'', u ''src'', u ''node_modules'', u ''lib'', u ''b.js''] \<in> set (tree_files [u ''srv''] project_tree)"
  by (simp add: project_tree_def)

lemma one_file_eval:
  "opened (scan_directory [u ''build''] one_file 1000) = [[u ''build'', u ''a.py'']]"
  by (simp add: one_file_def walk_eval_defs)

text \<open>
  C2, the claim as stated fails: this tree contains two extension-eligible files, both
  beneath \<^verbatim>\<open>node_modules\<close>, and the scan with the cap 1 reads none of them.
\<close>

theorem cap_counts_pruned_files:
  "count_scannable [u ''srv''] modules_only = 2 \<and>
   files_scanned (scan_directory [u ''srv''] modules_only 1) = 0"
  by (simp add: modules_only_eval)

theorem scan_directory_cap_witness:
  "length (walk_files [u ''srv''] project_tree) = 4 \<and>
   files_scanned (scan_directory [u ''srv''] project_tree 3) = 3 \<and>
   opened (scan_directory [u ''srv''] project_tree 3) =
     [[u ''srv'', u ''a.py''], [u ''srv'', u ''z.c''], [u ''srv'', u ''src'', u ''c.js'']]"
proof -
  have "length (map fst (walk_files [u ''srv''] project_tree)) = 4"
    by (simp only: project_tree_walk) simp
  then have l: "length (walk_files [u ''srv''] project_tree) = 4"
    by (simp only: length_map)
  then have "(0::int) \<le> 3" "3 < int (length (walk_files [u ''srv''] project_tree))"
    by simp_all
  from scan_directory_cap [OF this]
  have "files_scanned (scan_directory [u ''srv''] project_tree 3) = 3"
    and "opened (scan_directory [u ''srv''] project_tree 3) =
      take 3 (map fst (walk_files [u ''srv''] project_tree))"
    by (simp_all add: take_map del: walk_files.simps)
  with l show ?thesis
    by (simp only: project_tree_walk) simp
qed

text \<open>
  C6, the claim as stated fails: when the scan root is itself a directory named
  \<^verbatim>\<open>build\<close>, the file \<^verbatim>\<open>build/a.py\<close> lies beneath a directory with an excluded name and is
  read.
\<close>

theorem root_excluded_name_scanned:
  "[u ''build'', u ''a.py''] \<in> set (tree_files [u ''build''] one_file) \<and>
   u ''build'' \<in> set (butlast [u ''build'', u ''a.py'']) \<and>
   u ''build'' \<in> set SKIP_DIRS \<and>
   [u ''build'', u ''a.py''] \<in> set (opened (scan_directory [u ''build''] one_file 1000))"
  by (simp add: one_file_eval) (simp add: one_file_def SKIP_DIRS_def)

lemma dist_tree_eval:
  "[u ''dist'', u ''a.py''] \<in> set (tree_files [u ''dist''] dist_tree)"
  "length (walk_files [u ''dist''] dist_tree) = 1"
  "scannable (u ''a.py'')"
  "u ''dist'' \<in> set SKIP_DIRS"
  by (simp_all add: dist_tree_def walk_eval_defs)

theorem excluded_never_scanned_witness:
  "[u ''srv'', u ''src'', u ''node_modules'', u ''lib'', u ''b.js'']
     \<in> set (tree_files [u ''srv''] project_tree) \<and>
   [u ''srv'', u ''src'', u ''node_modules'', u ''lib'', u ''b.js'']
     \<notin> set (opened (scan_directory [u ''srv''] project_tree 1000)) \<and>
   u ''dist'' \<in> set SKIP_DIRS \<and>
   [u ''dist'', u ''a.py''] \<in> set (opened (scan_directory [u ''dist''] dist_tree 1000))"
proof -
  let ?p = "[u ''srv'', u ''src'', u ''node_modules'', u ''lib'', u ''b.js'']"
  let ?q = "[u ''dist'', u ''a.py'']"
  have "\<exists>d \<in> set (butlast (drop (length [u ''srv'']) ?p)). d \<in> set SKIP_DIRS"
    by (simp add: SKIP_DIRS_def)
  with excluded_never_scanned [of "[u ''srv'']" project_tree 1000] project_tree_files
  have 1: "?p \<notin> set (opened (scan_directory [u ''srv''] project_tree 1000))"
    by blast
  have "int (length (walk_files [u ''dist''] dist_tree)) \<le> 1000 \<and> scannable (last ?q) \<and>
      (\<forall>d \<in> set (butlast (drop (length [u ''dist'']) ?q)). d \<notin> set SKIP_DIRS)"
    by (simp add: dist_tree_eval del: walk_files.simps)
  with excluded_never_scanned [of "[u ''dist'']" dist_tree 1000] dist_tree_eval(1)
  have 2: "?q \<in> set (opened (scan_directory [u ''dist''] dist_tree 1000))"
    by blast
  from 1 2 project_tree_files dist_tree_eval(4) show ?thesis by simp
qed

section \<open>Properties of the scanner's entry point\<close>
















section \<open>Properties of the dispatcher\<close>







lemma execute_plugin_cases:
  "execute_plugin imp c m args = Inl e \<Longrightarrow>
     load_plugin_module imp c m = Inl e \<or>
     (\<exists>pm f. load_plugin_module imp c m = Inr pm \<and> attr_run_plugin pm = Some f \<and> f args = Inl e) \<or>
     (\<exists>pm g. load_plugin_module imp c m = Inr pm \<and> attr_run_plugin pm = None \<and> attr_run pm = Some g \<and> g args = Inl e)"
  by (auto simp: execute_plugin_def split: sum.splits option.splits)

lemma no_modules_eval:
  "run_plugin no_modules (u ''scan'') () =
     Inr (Str (u ''[!] Plugin execution failed: Plugin not found: plugins.vuln_scanner\<newline>Error: No module named plugins.vuln_scanner''))"
  by (simp add: run_plugin_def execute_plugin_def load_plugin_module_def no_modules_def ALIASES_def PLUGIN_REGISTRY_def u_def)



text \<open>
  C8. For every argument, dispatching \<^verbatim>\<open>scan\<close> and dispatching \<^verbatim>\<open>vuln_scan\<close> give the same
  result, whatever the import system provides: both names resolve to the task
  \<^verbatim>\<open>vuln_scan\<close>, whose registry entry is the module \<^verbatim>\<open>plugins.vuln_scanner\<close>, and the same
  entry point of that module is called with the same argument.
\<close>

theorem alias_equivalence:
  "run_plugin imp (u ''scan'') args = run_plugin imp (u ''vuln_scan'') args \<and>
   resolved_task (u ''scan'') = u ''vuln_scan'' \<and> resolved_task (u ''vuln_scan'') = u ''vuln_scan'' \<and>
   PLUGIN_REGISTRY (u ''vuln_scan'') = Some (u ''plugins'', u ''vuln_scanner'')"
  by (simp add: run_plugin_def resolved_task_def ALIASES_def PLUGIN_REGISTRY_def u_def)

lemma echo_eval: "run_plugin echo (u ''vuln_scan'') (u ''/srv'') = Inr (Str (u ''/srv''))"
  by (simp add: run_plugin_def execute_plugin_def load_plugin_module_def echo_def ALIASES_def PLUGIN_REGISTRY_def u_def)





theorem alias_equivalence_witness:
  "run_plugin echo (u ''scan'') (u ''/srv'') = Inr (Str (u ''/srv''))"
  using alias_equivalence [of echo "u ''/srv''"] echo_eval by simp

end
